theory Spec2Isabelle
  imports Complex_Main "HOL-Library.Word" "HOL-Library.Multiset"
    "HOL-Library.List_Lexorder" "HOL-Library.Product_Lexorder"
begin

unbundle bit_operations_syntax

section \<open>JavaScript strings\<close>

text \<open>
  A JavaScript string is a sequence of UTF-16 code units; \<open>.length\<close> counts them.
  \<open>js\<close> writes an ASCII literal as such a sequence.
\<close>

type_synonym jsstring = "16 word list"

definition js :: "string \<Rightarrow> jsstring" where
  "js s = map of_char s"

definition is_high :: "16 word \<Rightarrow> bool" where
  "is_high c = (0xD800 \<le> c \<and> c \<le> 0xDBFF)"

definition is_low :: "16 word \<Rightarrow> bool" where
  "is_low c = (0xDC00 \<le> c \<and> c \<le> 0xDFFF)"

subsection \<open>\<open>Buffer.byteLength(s, "utf8")\<close>\<close>

text \<open>
  Node's \<open>Buffer.byteLength\<close> is the number of bytes of the UTF-8 encoding of the string.
  A high surrogate followed by a low surrogate is one code point of four bytes; a surrogate
  that stands alone is encoded as U+FFFD (three bytes).
\<close>

definition utf8_unit :: "16 word \<Rightarrow> 8 word list" where
  "utf8_unit c =
     (if c < 0x80 then [ucast c]
      else if c < 0x800 then [0xC0 OR ucast (drop_bit 6 c), 0x80 OR ucast (c AND 0x3F)]
      else if is_high c \<or> is_low c then [0xEF, 0xBF, 0xBD]
      else [0xE0 OR ucast (drop_bit 12 c), 0x80 OR ucast (drop_bit 6 c AND 0x3F),
            0x80 OR ucast (c AND 0x3F)])"

definition utf8_pair :: "16 word \<Rightarrow> 16 word \<Rightarrow> 8 word list" where
  "utf8_pair h l =
     (let cp = (0x10000 + push_bit 10 (ucast (h AND 0x3FF)) + ucast (l AND 0x3FF) :: 32 word)
      in [0xF0 OR ucast (drop_bit 18 cp), 0x80 OR ucast (drop_bit 12 cp AND 0x3F),
          0x80 OR ucast (drop_bit 6 cp AND 0x3F), 0x80 OR ucast (cp AND 0x3F)])"

fun utf8_encode :: "jsstring \<Rightarrow> 8 word list" where
  "utf8_encode (h # l # cs) =
     (if is_high h \<and> is_low l then utf8_pair h l @ utf8_encode cs
      else utf8_unit h @ utf8_encode (l # cs))"
| "utf8_encode [c] = utf8_unit c"
| "utf8_encode [] = []"

definition byteLength :: "jsstring \<Rightarrow> int" where
  "byteLength s = int (length (utf8_encode s))"

section \<open>Values\<close>

text \<open>
  The entry and its fields come from a JSON response. A number is carried as the text the
  engine prints for it (\<open>Number::toString\<close>, which \<open>JSON.stringify\<close> uses as well): the
  program only ever tests a number for zero and prints it. An object is the list of its own
  properties in enumeration order.

  Reading a property yields a \<open>jsval\<close>: \<open>Undefined\<close> when there is none, \<open>Function\<close> for
  a method inherited from \<open>Object.prototype\<close>.
\<close>

datatype json = JNull | JBool bool | JNum jsstring | JStr jsstring
  | JArr "json list" | JObj "(jsstring \<times> json) list"

datatype jsval = Undefined | Function | Data json

datatype error = TypeError | ContentFieldNotFound jsstring

fun truthy :: "jsval \<Rightarrow> bool" where
  "truthy Undefined = False"
| "truthy Function = True"
| "truthy (Data JNull) = False"
| "truthy (Data (JBool b)) = b"
| "truthy (Data (JNum t)) = (t \<noteq> js ''0'')"
| "truthy (Data (JStr s)) = (s \<noteq> [])"
| "truthy (Data (JArr xs)) = True"
| "truthy (Data (JObj kvs)) = True"

datatype jstype = T_undefined | T_function | T_object | T_boolean | T_number | T_string

fun typeof :: "jsval \<Rightarrow> jstype" where
  "typeof Undefined = T_undefined"
| "typeof Function = T_function"
| "typeof (Data JNull) = T_object"
| "typeof (Data (JBool b)) = T_boolean"
| "typeof (Data (JNum t)) = T_number"
| "typeof (Data (JStr s)) = T_string"
| "typeof (Data (JArr xs)) = T_object"
| "typeof (Data (JObj kvs)) = T_object"

text \<open>
  \<open>obj[key]\<close> on an object parsed from JSON: the own property, else what every object
  inherits from \<open>Object.prototype\<close>. The accessor \<open>__proto__\<close> returns the prototype
  itself, an object with no enumerable property of its own, which this program cannot tell
  from \<open>{}\<close>.
\<close>

definition Object_prototype_methods :: "jsstring list" where
  "Object_prototype_methods = map js
     [''constructor'', ''hasOwnProperty'', ''isPrototypeOf'', ''propertyIsEnumerable'',
      ''toLocaleString'', ''toString'', ''valueOf'', ''__defineGetter__'',
      ''__defineSetter__'', ''__lookupGetter__'', ''__lookupSetter__'']"

definition obj_get :: "(jsstring \<times> json) list \<Rightarrow> jsstring \<Rightarrow> jsval" where
  "obj_get kvs k =
     (case map_of kvs k of
        Some v \<Rightarrow> Data v
      | None \<Rightarrow>
          if k \<in> set Object_prototype_methods then Function
          else if k = js ''__proto__'' then Data (JObj [])
          else Undefined)"

subsection \<open>\<open>JSON.stringify\<close>\<close>

definition hex_digit :: "16 word \<Rightarrow> 16 word" where
  "hex_digit d = (if d < 10 then 0x30 + d else 0x57 + d)"

definition UnicodeEscape :: "16 word \<Rightarrow> jsstring" where
  "UnicodeEscape c =
     [0x5C, 0x75, hex_digit (drop_bit 12 c), hex_digit (drop_bit 8 c AND 0xF),
      hex_digit (drop_bit 4 c AND 0xF), hex_digit (c AND 0xF)]"

text \<open>
  \<open>QuoteJSONString\<close>: backslash escapes for backspace, tab, newline, form feed, carriage
  return, the double quote (0x22) and the backslash (0x5C); a \<open>\u\<close> escape for the other
  control characters and for a surrogate that stands alone; every other code point as it is.
\<close>

definition json_escape :: "16 word \<Rightarrow> jsstring" where
  "json_escape c =
     (if c = 0x08 then [0x5C, 0x62] else if c = 0x09 then [0x5C, 0x74]
      else if c = 0x0A then [0x5C, 0x6E] else if c = 0x0C then [0x5C, 0x66]
      else if c = 0x0D then [0x5C, 0x72] else if c = 0x22 then [0x5C, 0x22]
      else if c = 0x5C then [0x5C, 0x5C]
      else if c < 0x20 \<or> is_high c \<or> is_low c then UnicodeEscape c
      else [c])"

fun quote_body :: "jsstring \<Rightarrow> jsstring" where
  "quote_body (h # l # cs) =
     (if is_high h \<and> is_low l then h # l # quote_body cs
      else json_escape h @ quote_body (l # cs))"
| "quote_body [c] = json_escape c"
| "quote_body [] = []"

definition QuoteJSONString :: "jsstring \<Rightarrow> jsstring" where
  "QuoteJSONString s = 0x22 # quote_body s @ [0x22]"

fun join_with :: "16 word \<Rightarrow> jsstring list \<Rightarrow> jsstring" where
  "join_with sep [] = []"
| "join_with sep [x] = x"
| "join_with sep (x # y # ys) = x @ sep # join_with sep (y # ys)"

fun stringify :: "json \<Rightarrow> jsstring" where
  "stringify JNull = js ''null''"
| "stringify (JBool b) = (if b then js ''true'' else js ''false'')"
| "stringify (JNum t) = t"
| "stringify (JStr s) = QuoteJSONString s"
| "stringify (JArr xs) = 0x5B # join_with 0x2C (map stringify xs) @ [0x5D]"
| "stringify (JObj kvs) =
     0x7B # join_with 0x2C (map (\<lambda>(k, v). QuoteJSONString k @ 0x3A # stringify v) kvs)
       @ [0x7D]"

section \<open>Size primitives\<close>

text \<open>\<open>getByteSize\<close>, index.js lines 13-30.\<close>

definition getByteSize :: "jsval \<Rightarrow> int" where
  "getByteSize content =
     (if \<not> truthy content then 0
      else case content of
        Data (JStr s) \<Rightarrow> byteLength s
      | Data j \<Rightarrow> if typeof content = T_object then byteLength (stringify j) else 0
      | _ \<Rightarrow> 0)"

text \<open>\<open>getCharacterCount\<close>, index.js lines 37-54.\<close>

definition getCharacterCount :: "jsval \<Rightarrow> int" where
  "getCharacterCount content =
     (if \<not> truthy content then 0
      else case content of
        Data (JStr s) \<Rightarrow> int (length s)
      | Data j \<Rightarrow> if typeof content = T_object then int (length (stringify j)) else 0
      | _ \<Rightarrow> 0)"

section \<open>Rich-text extraction\<close>

text \<open>
  \<open>Array.prototype.forEach\<close> with a callback that updates a variable of the enclosing
  function and may throw: the state is passed along, and the first error ends the loop.
\<close>

fun forEach :: "('a \<Rightarrow> 's \<Rightarrow> error + 's) \<Rightarrow> 'a list \<Rightarrow> 's \<Rightarrow> error + 's" where
  "forEach f [] s = Inr s"
| "forEach f (x # xs) s = (case f x s of Inl e \<Rightarrow> Inl e | Inr s' \<Rightarrow> forEach f xs s')"

lemma forEach_cong [fundef_cong]:
  "xs = ys \<Longrightarrow> s = t \<Longrightarrow> (\<And>x u. x \<in> set ys \<Longrightarrow> f x u = g x u)
   \<Longrightarrow> forEach f xs s = forEach g ys t"
  by (induction ys arbitrary: xs s t) (auto split: sum.splits)

text \<open>
  The string that \<open>plainText += node.value\<close> appends. A string is appended as it is, a
  boolean and a number as they print. An array is joined with commas, \<open>null\<close> elements
  giving the empty string. An object gives \<open>[object Object]\<close>, by the \<open>toString\<close> it
  inherits; when it has a property \<open>toString\<close> of its own (data, so not callable) the
  conversion throws a TypeError.
\<close>

fun collect :: "(error + 'a) list \<Rightarrow> error + 'a list" where
  "collect [] = Inr []"
| "collect (Inl e # rs) = Inl e"
| "collect (Inr x # rs) = (case collect rs of Inl e \<Rightarrow> Inl e | Inr xs \<Rightarrow> Inr (x # xs))"

fun ToString :: "json \<Rightarrow> error + jsstring" where
  "ToString JNull = Inr (js ''null'')"
| "ToString (JBool b) = Inr (if b then js ''true'' else js ''false'')"
| "ToString (JNum t) = Inr t"
| "ToString (JStr s) = Inr s"
| "ToString (JArr xs) =
     (case collect (map (\<lambda>x. if x = JNull then Inr [] else ToString x) xs) of
        Inl e \<Rightarrow> Inl e
      | Inr ss \<Rightarrow> Inr (join_with 0x2C ss))"
| "ToString (JObj kvs) =
     (if map_of kvs (js ''toString'') \<noteq> None then Inl TypeError
      else Inr (js ''[object Object]''))"

lemma size_map_of:
  "map_of kvs k = Some v \<Longrightarrow> size v < Suc (size_list (size_prod (\<lambda>x. 0) size) kvs)"
  by (induction kvs) (auto split: if_splits)

lemma size_list_member: "x \<in> set xs \<Longrightarrow> size x < Suc (size_list size xs)"
  for x :: json
  by (induction xs) auto

lemma size_map_of_child:
  assumes "map_of kvs k = Some (JArr cs)" and "x \<in> set cs"
  shows "size x < Suc (size_list (size_prod (\<lambda>x. 0) size) kvs)"
  using size_map_of [OF assms(1)] size_list_member [OF assms(2)] by simp

lemma size_obj_get_child:
  assumes "obj_get kvs k = Data (JArr cs)" and "x \<in> set cs"
  shows "size x < Suc (size_list (size_prod (\<lambda>x. 0) size) kvs)"
proof -
  from assms(1) have "map_of kvs k = Some (JArr cs)"
    by (auto simp: obj_get_def split: option.splits if_splits)
  from size_map_of [OF this] size_list_member [OF assms(2)] show ?thesis by simp
qed

text \<open>
  \<open>extractPlainTextFromRichText\<close> and its inner \<open>traverse\<close>, index.js lines 61-79.
  \<open>plainText\<close> is the variable \<open>traverse\<close> appends to. Reading \<open>node.value\<close> of \<open>null\<close>
  throws; a string, number, boolean or array has neither \<open>value\<close> nor \<open>content\<close>.
\<close>

function traverse :: "json \<Rightarrow> jsstring \<Rightarrow> error + jsstring" where
  "traverse JNull plainText = Inl TypeError"
| "traverse (JObj kvs) plainText =
     (case (case obj_get kvs (js ''value'') of
              Data v \<Rightarrow>
                if truthy (Data v)
                then (case ToString v of Inl e \<Rightarrow> Inl e | Inr s \<Rightarrow> Inr (plainText @ s))
                else Inr plainText
            | _ \<Rightarrow> Inr plainText) of
        Inl e \<Rightarrow> Inl e
      | Inr plainText' \<Rightarrow>
          (case obj_get kvs (js ''content'') of
             Data (JArr cs) \<Rightarrow> forEach traverse cs plainText'
           | _ \<Rightarrow> Inr plainText'))"
| "traverse (JBool b) plainText = Inr plainText"
| "traverse (JNum t) plainText = Inr plainText"
| "traverse (JStr s) plainText = Inr plainText"
| "traverse (JArr xs) plainText = Inr plainText"
  by pat_completeness auto
termination
  by (relation "measure (\<lambda>(node, p). size node)") (auto dest: size_obj_get_child)

definition extractPlainTextFromRichText :: "jsval \<Rightarrow> error + jsstring" where
  "extractPlainTextFromRichText richTextContent =
     (if \<not> truthy richTextContent \<or> typeof richTextContent \<noteq> T_object then Inr []
      else case richTextContent of Data node \<Rightarrow> traverse node [] | _ \<Rightarrow> Inr [])"

section \<open>Overhead analysis\<close>

text \<open>
  \<open>analyzeContentOverhead\<close>, index.js lines 86-133. The percentage is a floating-point
  quotient rounded by \<open>toFixed(1)\<close>; it is kept as the pair it is computed from:
  \<open>Percent_of a b\<close> stands for \<open>parseFloat(((a / b) * 100).toFixed(1))\<close>.
\<close>

datatype percentage = Percent_0 | Percent_of int int

record OverheadResult =
  totalSize :: int
  contentSize :: int
  overheadSize :: int
  overheadPercentage :: percentage

definition analyzeContentOverhead :: "jsval \<Rightarrow> error + OverheadResult" where
  "analyzeContentOverhead content =
     (if \<not> truthy content
      then Inr \<lparr>totalSize = 0, contentSize = 0, overheadSize = 0, overheadPercentage = Percent_0\<rparr>
      else case content of
        Data (JStr s) \<Rightarrow>
          (let size = byteLength s
           in Inr \<lparr>totalSize = size, contentSize = size, overheadSize = 0,
                   overheadPercentage = Percent_0\<rparr>)
      | Data j \<Rightarrow>
          if typeof content = T_object
          then (let total = byteLength (stringify j)
                in case extractPlainTextFromRichText content of
                     Inl e \<Rightarrow> Inl e
                   | Inr plainText \<Rightarrow>
                       (let content_size = byteLength plainText;
                            overhead = total - content_size
                        in Inr \<lparr>totalSize = total, contentSize = content_size,
                                overheadSize = overhead,
                                overheadPercentage =
                                  (if total > 0 then Percent_of overhead total
                                   else Percent_0)\<rparr>))
          else Inr \<lparr>totalSize = 0, contentSize = 0, overheadSize = 0,
                    overheadPercentage = Percent_0\<rparr>
      | _ \<Rightarrow>
          Inr \<lparr>totalSize = 0, contentSize = 0, overheadSize = 0, overheadPercentage = Percent_0\<rparr>)"

section \<open>The analysis of an entry\<close>

text \<open>
  \<open>analyzeEntryContentSizes\<close> (index.js lines 170-449) is modelled step by step, one
  definition for each value the later steps use. Console output is left out, and with it
  \<open>formatBytes\<close> and \<open>formatCharacterCount\<close>, whose strings are only printed.

  An entry's \<open>fields\<close> object maps a field id to an object that maps a locale code to the
  field's value. A locale has a code and a name.
\<close>

record Locale =
  code :: jsstring
  name :: jsstring

subsection \<open>The content field (lines 223-230)\<close>

text \<open>
  \<open>process.env.CONTENTFUL_CONTENT_FIELD_ID || "content"\<close>, then \<open>entry.fields[contentFieldId]\<close>;
  when the value read is falsy the program reports the field as not found and exits with
  status 1.
\<close>

definition contentFieldId :: "jsstring option \<Rightarrow> jsstring" where
  "contentFieldId env =
     (case env of None \<Rightarrow> js ''content'' | Some s \<Rightarrow> if s = [] then js ''content'' else s)"

definition contentField_of :: "(jsstring \<times> json) list \<Rightarrow> jsstring \<Rightarrow> error + jsval" where
  "contentField_of entry_fields fieldId =
     (let contentField = obj_get entry_fields fieldId
      in if \<not> truthy contentField then Inl (ContentFieldNotFound fieldId)
         else Inr contentField)"

subsection \<open>\<open>Array.prototype.sort\<close> with a comparator\<close>

text \<open>
  The sort is stable, and \<open>a\<close> comes before \<open>b\<close> when the comparator returns a negative
  number. For a consistent comparator every stable sort returns the same array; it is
  modelled as an insertion sort.
\<close>

fun insert_sorted :: "('a \<Rightarrow> 'a \<Rightarrow> int) \<Rightarrow> 'a \<Rightarrow> 'a list \<Rightarrow> 'a list" where
  "insert_sorted cmp x [] = [x]"
| "insert_sorted cmp x (y # ys) =
     (if cmp x y \<le> 0 then x # y # ys else y # insert_sorted cmp x ys)"

definition Array_sort :: "('a \<Rightarrow> 'a \<Rightarrow> int) \<Rightarrow> 'a list \<Rightarrow> 'a list" where
  "Array_sort cmp xs = foldr (insert_sorted cmp) xs []"

subsection \<open>The loop over the locales (lines 259-312)\<close>

text \<open>
  \<open>locales.sort((a, b) => a.code.localeCompare(b.code))\<close>. \<open>String.prototype.localeCompare\<close>
  is the collation of the engine's ICU data and default locale; it is a parameter here.
\<close>

definition sortedLocales :: "(jsstring \<Rightarrow> jsstring \<Rightarrow> int) \<Rightarrow> Locale list \<Rightarrow> Locale list" where
  "sortedLocales localeCompare locales =
     Array_sort (\<lambda>a b. localeCompare (code a) (code b)) locales"

record LocaleResult =
  localeCode :: jsstring
  localeName :: jsstring
  sizeInBytes :: int
  characterCount :: int
  overheadAnalysis :: OverheadResult
  hasContent :: bool

text \<open>
  The variables the loop updates. \<open>totalSize_acc\<close> is the variable \<open>totalSize\<close> (the name
  is taken by the field of \<open>OverheadResult\<close>).
\<close>

record totals =
  results :: "LocaleResult list"
  totalSize_acc :: int
  totalCharacters :: int
  totalContentSize :: int
  totalOverheadSize :: int
  localesWithContent :: int

definition analyzeLocale :: "(jsstring \<times> json) list \<Rightarrow> Locale \<Rightarrow> totals \<Rightarrow> error + totals" where
  "analyzeLocale contentField locale st =
     (let content = obj_get contentField (code locale)
      in case analyzeContentOverhead content of
           Inl e \<Rightarrow> Inl e
         | Inr overhead \<Rightarrow>
             (let pushed = st\<lparr>results := results st @
                    [\<lparr>localeCode = code locale, localeName = name locale,
                      sizeInBytes = getByteSize content,
                      characterCount = getCharacterCount content,
                      overheadAnalysis = overhead, hasContent = truthy content\<rparr>]\<rparr>
              in Inr (if truthy content
                      then pushed\<lparr>totalSize_acc := totalSize_acc pushed + getByteSize content,
                             totalCharacters := totalCharacters pushed + getCharacterCount content,
                             totalContentSize := totalContentSize pushed + contentSize overhead,
                             totalOverheadSize := totalOverheadSize pushed + overheadSize overhead,
                             localesWithContent := localesWithContent pushed + 1\<rparr>
                      else pushed)))"

definition analyzeLocales :: "(jsstring \<times> json) list \<Rightarrow> Locale list \<Rightarrow> error + totals" where
  "analyzeLocales contentField sortedLocs =
     forEach (analyzeLocale contentField) sortedLocs
       \<lparr>results = [], totalSize_acc = 0, totalCharacters = 0, totalContentSize = 0,
        totalOverheadSize = 0, localesWithContent = 0\<rparr>"

subsection \<open>The limit and the three messages (lines 319-377)\<close>

text \<open>
  \<open>totalEntrySize > twoMBInBytes * 0.8\<close> compares doubles. The literals \<open>0.8\<close> and \<open>0.6\<close>
  denote the doubles \<open>7205759403792794 / 2^53\<close> and \<open>5404319552844595 / 2^53\<close>; the product
  with \<open>2^21\<close> is exact, and so is a byte count below \<open>2^53\<close>. The comparison is therefore
  the comparison of these rationals.
\<close>

datatype band = WARNING | CAUTION | SAFE

definition twoMBInBytes :: int where
  "twoMBInBytes = 2 * 1024 * 1024"

definition double_0_8 :: rat where
  "double_0_8 = 7205759403792794 / 2 ^ 53"

definition double_0_6 :: rat where
  "double_0_6 = 5404319552844595 / 2 ^ 53"

definition usage_band :: "int \<Rightarrow> band" where
  "usage_band totalEntrySize =
     (if of_int totalEntrySize > of_int twoMBInBytes * double_0_8 then WARNING
      else if of_int totalEntrySize > of_int twoMBInBytes * double_0_6 then CAUTION
      else SAFE)"

subsection \<open>The field size breakdown (lines 394-417)\<close>

text \<open>
  \<open>fieldSizes[fieldId] = fieldTotal\<close> for each key of \<open>entry.fields\<close>, then
  \<open>Object.entries(fieldSizes).sort(([, a], [, b]) => b - a)\<close>. Assigning to a new key adds
  it after the keys the object has.
\<close>

fun obj_set :: "(jsstring \<times> 'v) list \<Rightarrow> jsstring \<Rightarrow> 'v \<Rightarrow> (jsstring \<times> 'v) list" where
  "obj_set [] k v = [(k, v)]"
| "obj_set (p # ps) k v = (if fst p = k then (k, v) # ps else p # obj_set ps k v)"

definition fieldSizes :: "(jsstring \<times> json) list \<Rightarrow> (jsstring \<times> int) list" where
  "fieldSizes entry_fields =
     foldl (\<lambda>sizes fieldId.
              case map_of entry_fields fieldId of
                Some field \<Rightarrow> obj_set sizes fieldId (byteLength (stringify field))
              | None \<Rightarrow> sizes)
       [] (map fst entry_fields)"

definition sortedFields :: "(jsstring \<times> json) list \<Rightarrow> (jsstring \<times> int) list" where
  "sortedFields entry_fields = Array_sort (\<lambda>(_, a) (_, b). b - a) (fieldSizes entry_fields)"

section \<open>Notions of the specification\<close>

subsection \<open>Rich documents and their text\<close>

text \<open>
  A rich document is an object whose \<open>value\<close>, if present, is a string and whose
  \<open>content\<close>, if present, is an array of rich documents. Its nodes in depth-first
  pre-order are the node itself, then those of its children from left to right.
\<close>

function rich_document :: "json \<Rightarrow> bool" where
  "rich_document (JObj kvs) =
     ((case map_of kvs (js ''value'') of
         None \<Rightarrow> True | Some (JStr s) \<Rightarrow> True | Some _ \<Rightarrow> False)
      \<and> (case map_of kvs (js ''content'') of
            None \<Rightarrow> True
          | Some (JArr cs) \<Rightarrow> (\<forall>c \<in> set cs. rich_document c)
          | Some _ \<Rightarrow> False))"
| "rich_document JNull = False"
| "rich_document (JBool b) = False"
| "rich_document (JNum t) = False"
| "rich_document (JStr s) = False"
| "rich_document (JArr xs) = False"
  by pat_completeness auto
termination
  by (relation "measure size") (auto dest: size_map_of_child)

definition children :: "json \<Rightarrow> json list" where
  "children node =
     (case node of
        JObj kvs \<Rightarrow> (case map_of kvs (js ''content'') of Some (JArr cs) \<Rightarrow> cs | _ \<Rightarrow> [])
      | _ \<Rightarrow> [])"

definition value_text :: "json \<Rightarrow> jsstring" where
  "value_text node =
     (case node of
        JObj kvs \<Rightarrow> (case map_of kvs (js ''value'') of Some (JStr s) \<Rightarrow> s | _ \<Rightarrow> [])
      | _ \<Rightarrow> [])"

lemma size_children: "c \<in> set (children node) \<Longrightarrow> size c < size node"
  by (auto simp: children_def split: json.splits option.splits
           dest: size_map_of_child [OF sym])

function preorder :: "json \<Rightarrow> json list" where
  "preorder node = node # concat (map preorder (children node))"
  by pat_completeness auto
termination
  by (relation "measure size") (auto dest: size_children)

declare preorder.simps [simp del]

subsection \<open>Orders on strings\<close>

text \<open>Case-sensitive lexical comparison of code units, the order the specification names.\<close>

fun code_unit_le :: "jsstring \<Rightarrow> jsstring \<Rightarrow> bool" where
  "code_unit_le [] ys = True"
| "code_unit_le (x # xs) [] = False"
| "code_unit_le (x # xs) (y # ys) = (x < y \<or> (x = y \<and> code_unit_le xs ys))"

text \<open>
  What \<open>localeCompare\<close> returns on strings of ASCII letters, digits and hyphens under the
  root collation (and under English): the strings are compared letter by letter without
  regard to case, a hyphen before a digit before a letter; strings equal up to case are
  then compared by case, lower before upper.
\<close>

definition primary_weight :: "16 word \<Rightarrow> 16 word" where
  "primary_weight c = (if 0x41 \<le> c \<and> c \<le> 0x5A then c + 0x20 else c)"

definition collation_key :: "jsstring \<Rightarrow> 16 word list \<times> bool list" where
  "collation_key s = (map primary_weight s, map (\<lambda>c. 0x41 \<le> c \<and> c \<le> 0x5A) s)"

definition localeCompare_root :: "jsstring \<Rightarrow> jsstring \<Rightarrow> int" where
  "localeCompare_root a b =
     (if collation_key a < collation_key b then - 1
      else if collation_key b < collation_key a then 1 else 0)"

text \<open>A consistent comparator, as \<open>Array.prototype.sort\<close> expects it.\<close>

definition consistent :: "('a \<Rightarrow> 'a \<Rightarrow> int) \<Rightarrow> bool" where
  "consistent cmp \<longleftrightarrow>
     (\<forall>a b. (cmp a b < 0) = (cmp b a > 0))
     \<and> (\<forall>a b c. cmp a b \<le> 0 \<longrightarrow> cmp b c \<le> 0 \<longrightarrow> cmp a c \<le> 0)"

subsection \<open>The raw value of a locale\<close>




subsection \<open>Invariants of the loop over the locales\<close>



section \<open>Facts about string literals\<close>

lemma unat_of_char: "unat (of_char c :: 16 word) = of_char c"
proof -
  have "(of_char c :: nat) < 2 ^ 16"
    by (rule less_trans [OF nat_of_char_less_256]) simp
  then have "unat (of_nat (of_char c) :: 16 word) = of_char c"
    by (simp add: unat_of_nat take_bit_nat_eq_self)
  then show ?thesis by (simp add: of_nat_of_char)
qed

lemma of_char_word_eq_iff: "(of_char c :: 16 word) = of_char d \<longleftrightarrow> c = d"
proof
  assume "(of_char c :: 16 word) = of_char d"
  then have "unat (of_char c :: 16 word) = unat (of_char d :: 16 word)" by simp
  then show "c = d" by (simp add: unat_of_char)
qed simp

lemma js_eq_iff [simp]: "js a = js b \<longleftrightarrow> a = b"
proof -
  have "inj (of_char :: char \<Rightarrow> 16 word)"
    by (rule injI) (simp add: of_char_word_eq_iff)
  then show ?thesis by (simp add: js_def inj_map_eq_map)
qed

lemma js_eq_Nil_iff [simp]: "js a = [] \<longleftrightarrow> a = []"
  by (simp add: js_def)

section \<open>Facts about the UTF-8 length\<close>

lemma length_utf8_unit:
  "length (utf8_unit c) = (if c < 0x80 then 1 else if c < 0x800 then 2 else 3)"
  by (simp add: utf8_unit_def)

lemma length_utf8_pair: "length (utf8_pair h l) = 4"
  by (simp add: utf8_pair_def Let_def)

lemma length_le_utf8_encode: "length s \<le> length (utf8_encode s)"
  by (induction s rule: utf8_encode.induct)
     (auto simp: length_utf8_unit length_utf8_pair)

lemma length_less_utf8_encode:
  "\<exists>c \<in> set s. 0x80 \<le> c \<Longrightarrow> length s < length (utf8_encode s)"
proof (induction s rule: utf8_encode.induct)
  case (1 h l cs)
  show ?case
  proof (cases "is_high h \<and> is_low l")
    case True
    with length_le_utf8_encode [of cs] show ?thesis
      by (simp add: length_utf8_pair)
  next
    case False
    show ?thesis
    proof (cases "0x80 \<le> h")
      case True
      then have "\<not> h < 0x80" by (simp add: not_less)
      with False length_le_utf8_encode [of "l # cs"] show ?thesis
        by (auto simp: length_utf8_unit)
    next
      case h: False
      with "1.prems" have "\<exists>c \<in> set (l # cs). 0x80 \<le> c" by auto
      with False "1.IH"(2) have "length (l # cs) < length (utf8_encode (l # cs))" by blast
      with False show ?thesis by (auto simp: length_utf8_unit)
    qed
  qed
next
  case (2 c)
  then show ?case by (simp add: length_utf8_unit)
next
  case 3
  then show ?case by simp
qed

section \<open>The extractor on rich documents\<close>

lemma obj_get_value: "obj_get kvs (js ''value'') =
    (case map_of kvs (js ''value'') of Some v \<Rightarrow> Data v | None \<Rightarrow> Undefined)"
  by (simp add: obj_get_def Object_prototype_methods_def js_def split: option.splits)

lemma obj_get_content: "obj_get kvs (js ''content'') =
    (case map_of kvs (js ''content'') of Some v \<Rightarrow> Data v | None \<Rightarrow> Undefined)"
  by (simp add: obj_get_def Object_prototype_methods_def js_def split: option.splits)

lemma forEach_appends:
  "(\<And>x u. x \<in> set xs \<Longrightarrow> f x u = Inr (u @ g x))
   \<Longrightarrow> forEach f xs s = Inr (s @ concat (map g xs))"
  by (induction xs arbitrary: s) auto

lemma concat_map_concat_map:
  "concat (map f (concat (map g xs))) = concat (map (\<lambda>x. concat (map f (g x))) xs)"
  by (induction xs) auto

lemma traverse_rich_document:
  "rich_document d \<Longrightarrow> traverse d p = Inr (p @ concat (map value_text (preorder d)))"
proof (induction d arbitrary: p rule: measure_induct_rule [where f = size])
  case (less d)
  from less.prems obtain kvs where d: "d = JObj kvs" by (cases d) auto
  let ?own = "value_text d"
  have own: "(case obj_get kvs (js ''value'') of
                Data v \<Rightarrow>
                  if truthy (Data v)
                  then (case ToString v of Inl e \<Rightarrow> Inl e | Inr s \<Rightarrow> Inr (p @ s))
                  else Inr p
              | _ \<Rightarrow> Inr p) = Inr (p @ ?own)"
    using less.prems
    by (auto simp: d obj_get_value value_text_def split: option.splits json.splits)
  have kids: "(case obj_get kvs (js ''content'') of
                 Data (JArr cs) \<Rightarrow> forEach traverse cs q
               | _ \<Rightarrow> Inr q) =
              Inr (q @ concat (map (\<lambda>c. concat (map value_text (preorder c))) (children d)))"
    for q
  proof (cases "map_of kvs (js ''content'')")
    case None
    then show ?thesis by (simp add: obj_get_content children_def d)
  next
    case (Some c)
    with less.prems obtain cs where cs: "c = JArr cs" and rich: "\<forall>x \<in> set cs. rich_document x"
      by (auto simp: d split: json.splits)
    have "traverse x u = Inr (u @ concat (map value_text (preorder x)))"
      if "x \<in> set cs" for x u
    proof -
      from that Some cs have "x \<in> set (children d)" by (simp add: children_def d)
      from size_children [OF this] rich that show ?thesis by (simp add: less.IH)
    qed
    from forEach_appends [of cs traverse "\<lambda>c. concat (map value_text (preorder c))" q, OF this]
    show ?thesis using Some cs by (simp add: obj_get_content children_def d)
  qed
  have "traverse d p =
        Inr (p @ ?own @ concat (map (\<lambda>c. concat (map value_text (preorder c))) (children d)))"
    unfolding d traverse.simps own [unfolded d] by (simp add: kids [unfolded d])
  also have "?own @ concat (map (\<lambda>c. concat (map value_text (preorder c))) (children d))
             = concat (map value_text (preorder d))"
    by (subst (2) preorder.simps) (simp add: concat_map_concat_map)
  finally show ?case .
qed

text \<open>What the extractor tolerates: input that is no object, \<open>content\<close> that is no array,
  and children that are neither objects nor \<open>null\<close>.\<close>

lemma extract_of_non_object:
  "typeof v \<noteq> T_object \<Longrightarrow> extractPlainTextFromRichText v = Inr []"
  by (simp add: extractPlainTextFromRichText_def)

lemma extract_of_array: "extractPlainTextFromRichText (Data (JArr xs)) = Inr []"
  by (simp add: extractPlainTextFromRichText_def)

lemma extract_content_not_array:
  assumes "map_of kvs (js ''value'') = None" and "map_of kvs (js ''content'') = Some c"
    and "\<forall>cs. c \<noteq> JArr cs"
  shows "extractPlainTextFromRichText (Data (JObj kvs)) = Inr []"
  using assms
  by (cases c) (simp_all add: extractPlainTextFromRichText_def obj_get_value obj_get_content)

lemma extract_child_not_node:
  assumes "x \<noteq> JNull" and "\<forall>m. x \<noteq> JObj m"
  shows "extractPlainTextFromRichText (Data (JObj [(js ''content'', JArr [x])])) = Inr []"
  using assms
  by (cases x) (simp_all add: extractPlainTextFromRichText_def obj_get_value obj_get_content)

section \<open>Facts about the sort, the loop and the breakdown\<close>

lemma above_0_8: "(of_int n :: rat) > of_int twoMBInBytes * double_0_8 \<longleftrightarrow> 10 * n > 8 * twoMBInBytes"
proof -
  have "(of_int n :: rat) > of_int twoMBInBytes * double_0_8
        \<longleftrightarrow> (of_int (n * 2 ^ 53) :: rat) > of_int (2097152 * 7205759403792794)"
    by (simp add: twoMBInBytes_def double_0_8_def field_simps)
  also have "\<dots> \<longleftrightarrow> n * 2 ^ 53 > 2097152 * 7205759403792794"
    by (simp only: of_int_less_iff)
  also have "\<dots> \<longleftrightarrow> 10 * n > 8 * twoMBInBytes"
    by (simp add: twoMBInBytes_def) arith
  finally show ?thesis .
qed

lemma above_0_6: "(of_int n :: rat) > of_int twoMBInBytes * double_0_6 \<longleftrightarrow> 10 * n > 6 * twoMBInBytes"
proof -
  have "(of_int n :: rat) > of_int twoMBInBytes * double_0_6
        \<longleftrightarrow> (of_int (n * 2 ^ 53) :: rat) > of_int (2097152 * 5404319552844595)"
    by (simp add: twoMBInBytes_def double_0_6_def field_simps)
  also have "\<dots> \<longleftrightarrow> n * 2 ^ 53 > 2097152 * 5404319552844595"
    by (simp only: of_int_less_iff)
  also have "\<dots> \<longleftrightarrow> 10 * n > 6 * twoMBInBytes"
    by (simp add: twoMBInBytes_def) arith
  finally show ?thesis .
qed

lemma usage_band_exact:
  "usage_band m =
     (if 10 * m > 8 * twoMBInBytes then WARNING
      else if 10 * m > 6 * twoMBInBytes then CAUTION else SAFE)"
  unfolding usage_band_def above_0_8 above_0_6 ..

lemma mset_insert_sorted: "mset (insert_sorted cmp x ys) = add_mset x (mset ys)"
  by (induction ys) auto

lemma mset_Array_sort: "mset (Array_sort cmp xs) = mset xs"
  by (induction xs) (auto simp: Array_sort_def mset_insert_sorted)

lemma set_insert_sorted: "set (insert_sorted cmp x ys) = insert x (set ys)"
  by (induction ys) auto

lemma consistent_total: "consistent cmp \<Longrightarrow> \<not> cmp a b \<le> 0 \<Longrightarrow> cmp b a \<le> 0"
  unfolding consistent_def by (metis less_le not_le)

lemma consistent_trans: "consistent cmp \<Longrightarrow> cmp a b \<le> 0 \<Longrightarrow> cmp b c \<le> 0 \<Longrightarrow> cmp a c \<le> 0"
  unfolding consistent_def by blast

lemma sorted_insert_sorted:
  assumes "consistent cmp" and "sorted_wrt (\<lambda>a b. cmp a b \<le> 0) ys"
  shows "sorted_wrt (\<lambda>a b. cmp a b \<le> 0) (insert_sorted cmp x ys)"
  using assms(2)
proof (induction ys)
  case Nil
  then show ?case by simp
next
  case (Cons y ys)
  show ?case
  proof (cases "cmp x y \<le> 0")
    case True
    with Cons.prems consistent_trans [OF assms(1) True] show ?thesis by auto
  next
    case False
    from consistent_total [OF assms(1) False] Cons show ?thesis
      using False by (auto simp: set_insert_sorted)
  qed
qed

lemma sorted_Array_sort:
  "consistent cmp \<Longrightarrow> sorted_wrt (\<lambda>a b. cmp a b \<le> 0) (Array_sort cmp xs)"
  by (induction xs) (auto simp: Array_sort_def sorted_insert_sorted)

lemma filter_insert_sorted:
  assumes "\<And>y. P x \<Longrightarrow> P y \<Longrightarrow> cmp x y \<le> 0"
  shows "filter P (insert_sorted cmp x ys) = (if P x then x # filter P ys else filter P ys)"
  using assms by (induction ys) auto

lemma filter_Array_sort:
  assumes "\<And>x y. P x \<Longrightarrow> P y \<Longrightarrow> cmp x y \<le> 0"
  shows "filter P (Array_sort cmp xs) = filter P xs"
proof (induction xs)
  case Nil
  then show ?case by (simp add: Array_sort_def)
next
  case (Cons x xs)
  have "filter P (Array_sort cmp (x # xs)) = filter P (insert_sorted cmp x (Array_sort cmp xs))"
    by (simp add: Array_sort_def)
  also have "\<dots> = (if P x then x # filter P (Array_sort cmp xs) else filter P (Array_sort cmp xs))"
    by (rule filter_insert_sorted) (rule assms)
  finally show ?case by (simp add: Cons.IH)
qed




lemma analyzeLocale_codes:
  "analyzeLocale cf l st = Inr st'
   \<Longrightarrow> map localeCode (results st') = map localeCode (results st) @ [code l]"
  by (auto simp: analyzeLocale_def Let_def split: sum.splits if_splits)

lemma forEach_analyzeLocale_codes:
  "forEach (analyzeLocale cf) ls st = Inr st'
   \<Longrightarrow> map localeCode (results st') = map localeCode (results st) @ map code ls"
proof (induction ls arbitrary: st)
  case Nil
  then show ?case by simp
next
  case (Cons l ls)
  from Cons.prems obtain t where t: "analyzeLocale cf l st = Inr t"
    and rest: "forEach (analyzeLocale cf) ls t = Inr st'"
    by (auto split: sum.splits)
  from Cons.IH [OF rest] analyzeLocale_codes [OF t] show ?case by simp
qed

lemma obj_set_new: "k \<notin> fst ` set ps \<Longrightarrow> obj_set ps k v = ps @ [(k, v)]"
  by (induction ps) auto

lemma fieldSizes_step:
  assumes "distinct (map fst (before @ rest))"
  shows "foldl (\<lambda>sizes fieldId.
              case map_of (before @ rest) fieldId of
                Some field \<Rightarrow> obj_set sizes fieldId (byteLength (stringify field))
              | None \<Rightarrow> sizes)
           (map (\<lambda>(k, v). (k, byteLength (stringify v))) before) (map fst rest)
         = map (\<lambda>(k, v). (k, byteLength (stringify v))) (before @ rest)"
  using assms
proof (induction rest arbitrary: before)
  case Nil
  then show ?case by simp
next
  case (Cons p rest)
  obtain k v where p: "p = (k, v)" by (cases p)
  from Cons.prems have dist: "distinct (map fst ((before @ [p]) @ rest))" by simp
  from Cons.prems have "map_of (before @ p # rest) k = Some v"
    by (intro map_of_is_SomeI) (simp_all add: p)
  moreover from Cons.prems have "k \<notin> fst ` set (map (\<lambda>(k, v). (k, byteLength (stringify v))) before)"
    by (force simp: p)
  ultimately show ?case
    using Cons.IH [OF dist] by (simp add: p obj_set_new)
qed

lemma fieldSizes_distinct:
  "distinct (map fst entry_fields)
   \<Longrightarrow> fieldSizes entry_fields = map (\<lambda>(k, v). (k, byteLength (stringify v))) entry_fields"
  using fieldSizes_step [of "[]" entry_fields] by (simp add: fieldSizes_def)

lemma consistent_by_size: "consistent (\<lambda>(_, a) (_, b). b - a :: int)"
  by (auto simp: consistent_def)

lemma consistent_localeCompare_root: "consistent (\<lambda>a b. localeCompare_root (f a) (f b))"
  by (auto simp: consistent_def localeCompare_root_def)

lemma missing_field_signalled:
  "map_of entry_fields fieldId = None \<Longrightarrow> fieldId \<notin> set Object_prototype_methods
   \<Longrightarrow> fieldId \<noteq> js ''__proto__''
   \<Longrightarrow> contentField_of entry_fields fieldId = Inl (ContentFieldNotFound fieldId)"
  by (simp add: contentField_of_def obj_get_def)





lemma consistent_ties:
  assumes "consistent cmp" and "cmp x k = 0" and "cmp y k = 0"
  shows "cmp x y \<le> 0"
proof -
  from assms(1) have "(cmp y k < 0) = (cmp k y > 0)" by (simp add: consistent_def)
  with assms(3) have "cmp k y \<le> 0" by simp
  with consistent_trans [OF assms(1), of x k y] assms(2) show ?thesis by simp
qed

text \<open>
  Under a locale code that is an inherited name the loop reads the inherited function: the
  locale has no value, and yet \<open>hasContent\<close> is true and the locale is counted.
\<close>

lemma inherited_name_counts_as_content:
  "map_of [(js ''en-US'', JStr (js ''abc''))] (js ''constructor'') = None
   \<and> analyzeLocales [(js ''en-US'', JStr (js ''abc''))]
         [\<lparr>code = js ''constructor'', name = js ''Constructor''\<rparr>]
       = Inr \<lparr>results =
          [\<lparr>localeCode = js ''constructor'', localeName = js ''Constructor'', sizeInBytes = 0,
              characterCount = 0,
              overheadAnalysis = \<lparr>totalSize = 0, contentSize = 0, overheadSize = 0,
                   overheadPercentage = Percent_0\<rparr>,
              hasContent = True\<rparr>],
          totalSize_acc = 0, totalCharacters = 0, totalContentSize = 0,
          totalOverheadSize = 0, localesWithContent = 1\<rparr>"
  by (simp add: analyzeLocales_def analyzeLocale_def obj_get_def Object_prototype_methods_def
        analyzeContentOverhead_def getByteSize_def getCharacterCount_def Let_def)

text \<open>The loop completes when every object it reads is a rich document.\<close>

lemma forEach_returns:
  "(\<And>x s. x \<in> set xs \<Longrightarrow> \<exists>s'. f x s = Inr s') \<Longrightarrow> \<exists>s'. forEach f xs s = Inr s'"
proof (induction xs arbitrary: s)
  case Nil
  then show ?case by simp
next
  case (Cons x xs)
  from Cons.prems [of x s] obtain t where "f x s = Inr t" by auto
  moreover from Cons.IH [of t] Cons.prems obtain s' where "forEach f xs t = Inr s'" by auto
  ultimately show ?case by simp
qed

lemma analyzeContentOverhead_returns:
  assumes "\<And>kvs. v = Data (JObj kvs) \<Longrightarrow> rich_document (JObj kvs)"
  shows "\<exists>r. analyzeContentOverhead v = Inr r"
proof (cases v)
  case (Data j)
  show ?thesis
  proof (cases j)
    case (JObj kvs)
    with Data assms have "rich_document (JObj kvs)" by simp
    from traverse_rich_document [OF this, of "[]"] show ?thesis
      by (simp add: Data JObj analyzeContentOverhead_def extractPlainTextFromRichText_def Let_def)
  qed (simp_all add: Data analyzeContentOverhead_def extractPlainTextFromRichText_def Let_def)
qed (simp_all add: analyzeContentOverhead_def)

lemma analyzeLocales_returns:
  assumes "\<And>l kvs. l \<in> set ls \<Longrightarrow> obj_get contentField (code l) = Data (JObj kvs)
             \<Longrightarrow> rich_document (JObj kvs)"
  shows "\<exists>st. analyzeLocales contentField ls = Inr st"
  unfolding analyzeLocales_def
proof (rule forEach_returns)
  fix l s assume "l \<in> set ls"
  with assms have "\<exists>r. analyzeContentOverhead (obj_get contentField (code l)) = Inr r"
    by (intro analyzeContentOverhead_returns) auto
  then show "\<exists>s'. analyzeLocale contentField l s = Inr s'"
    by (auto simp: analyzeLocale_def Let_def)
qed

section \<open>The extracted text within the JSON text\<close>

text \<open>
  The UTF-8 length of a concatenation is at most the sum of the lengths (a surrogate pair
  split across the two parts is three bytes on each side, four when joined), and equal to
  it across a code unit that is not a surrogate. Quoting never shortens a string.
\<close>

lemma not_high_low: "is_low c \<Longrightarrow> \<not> is_high c"
  by (auto simp: is_low_def is_high_def word_le_nat_alt)

lemma utf8_encode_Cons: "\<not> is_high c \<Longrightarrow> utf8_encode (c # cs) = utf8_unit c @ utf8_encode cs"
  by (cases cs) auto

lemma utf8_encode_split_before:
  "\<not> is_low c \<Longrightarrow> utf8_encode (a @ c # b) = utf8_encode a @ utf8_encode (c # b)"
  by (induction a rule: utf8_encode.induct) auto

lemma utf8_encode_split_after:
  "a \<noteq> [] \<Longrightarrow> \<not> is_high (last a) \<Longrightarrow> utf8_encode (a @ b) = utf8_encode a @ utf8_encode b"
proof (induction a rule: utf8_encode.induct)
  case (1 h l cs)
  then show ?case by (cases cs) (auto simp: utf8_encode_Cons)
next
  case (2 c)
  then show ?case by (simp add: utf8_encode_Cons)
next
  case 3
  then show ?case by simp
qed

lemma length_utf8_unit_high: "is_high c \<Longrightarrow> length (utf8_unit c) = 3"
  by (auto simp: length_utf8_unit is_high_def word_le_nat_alt word_less_nat_alt)

lemma length_utf8_unit_low: "is_low c \<Longrightarrow> length (utf8_unit c) = 3"
  by (auto simp: length_utf8_unit is_low_def word_le_nat_alt word_less_nat_alt)

lemma utf8_length_Cons_le:
  "length (utf8_encode (c # b)) \<le> length (utf8_unit c) + length (utf8_encode b)"
proof (cases b)
  case Nil
  then show ?thesis by simp
next
  case (Cons l cs)
  show ?thesis
  proof (cases "is_high c \<and> is_low l")
    case True
    then have "utf8_encode (l # cs) = utf8_unit l @ utf8_encode cs"
      by (simp add: utf8_encode_Cons not_high_low)
    with True show ?thesis
      by (simp add: Cons length_utf8_pair length_utf8_unit_high length_utf8_unit_low)
  next
    case False
    then show ?thesis by (auto simp: Cons)
  qed
qed

lemma utf8_length_append_le:
  "length (utf8_encode (a @ b)) \<le> length (utf8_encode a) + length (utf8_encode b)"
proof (induction a rule: utf8_encode.induct)
  case (1 h l cs)
  then show ?case by auto
next
  case (2 c)
  then show ?case using utf8_length_Cons_le [of c b] by simp
next
  case 3
  then show ?case by simp
qed

lemma utf8_length_concat_le:
  "length (utf8_encode (concat xs)) \<le> sum_list (map (\<lambda>x. length (utf8_encode x)) xs)"
proof (induction xs)
  case Nil
  then show ?case by simp
next
  case (Cons x xs)
  from utf8_length_append_le [of x "concat xs"] Cons show ?case by simp
qed

lemma hex_digit_not_high: "\<not> is_high (hex_digit (c AND 0xF))"
proof -
  have "c AND 0xF \<le> 0xF" by (rule word_and_le1)
  then have "unat (c AND 0xF) \<le> 15" by (simp add: word_le_nat_alt)
  then show ?thesis
    by (auto simp: hex_digit_def is_high_def word_le_nat_alt word_less_nat_alt unat_word_ariths)
qed

lemma json_escape_last: "json_escape c \<noteq> [] \<and> \<not> is_high (last (json_escape c))"
proof -
  have esc: "UnicodeEscape c \<noteq> [] \<and> \<not> is_high (last (UnicodeEscape c))"
    by (simp add: UnicodeEscape_def hex_digit_not_high)
  have lits: "\<not> is_high 0x62" "\<not> is_high 0x74" "\<not> is_high 0x6E" "\<not> is_high 0x66"
    "\<not> is_high 0x72" "\<not> is_high 0x22" "\<not> is_high 0x5C"
    by (simp_all add: is_high_def)
  from esc lits show ?thesis by (auto simp: json_escape_def)
qed

lemma json_escape_length:
  "length (utf8_unit c) \<le> length (utf8_encode (json_escape c))"
proof (cases "json_escape c = [c]")
  case True
  then show ?thesis by simp
next
  case False
  then have "2 \<le> length (json_escape c)"
    by (auto simp: json_escape_def UnicodeEscape_def split: if_splits)
  moreover have "length (utf8_unit c) \<le> 3" by (simp add: length_utf8_unit)
  moreover have "length (json_escape c) \<le> length (utf8_encode (json_escape c))"
    by (rule length_le_utf8_encode)
  moreover have "length (utf8_unit c) \<le> 2 \<or> json_escape c = UnicodeEscape c"
    using False
    by (auto simp: json_escape_def length_utf8_unit is_high_def is_low_def
        word_le_nat_alt word_less_nat_alt split: if_splits)
  moreover have "length (UnicodeEscape c) = 6" by (simp add: UnicodeEscape_def)
  ultimately show ?thesis by auto
qed

lemma quote_body_length:
  "length (utf8_encode s) \<le> length (utf8_encode (quote_body s))"
proof (induction s rule: quote_body.induct)
  case (1 h l cs)
  show ?case
  proof (cases "is_high h \<and> is_low l")
    case True
    with 1 show ?thesis by simp
  next
    case False
    from json_escape_last [of h]
    have "utf8_encode (json_escape h @ quote_body (l # cs))
        = utf8_encode (json_escape h) @ utf8_encode (quote_body (l # cs))"
      by (intro utf8_encode_split_after) simp_all
    with False 1 json_escape_length [of h] show ?thesis by auto
  qed
next
  case (2 c)
  then show ?case by (simp add: json_escape_length)
next
  case 3
  then show ?case by simp
qed

lemma punctuation: "\<not> is_low 0x22" "\<not> is_high 0x22" "\<not> is_low 0x2C" "\<not> is_high 0x2C"
  "\<not> is_low 0x3A" "\<not> is_high 0x3A" "\<not> is_low 0x5D" "\<not> is_high 0x5B"
  "\<not> is_low 0x7D" "\<not> is_high 0x7B"
  by (simp_all add: is_low_def is_high_def)

lemma QuoteJSONString_length:
  "length (utf8_encode s) \<le> length (utf8_encode (QuoteJSONString s))"
proof -
  have "utf8_encode (QuoteJSONString s)
      = utf8_unit 0x22 @ utf8_encode (quote_body s) @ utf8_encode [0x22]"
    by (simp add: QuoteJSONString_def utf8_encode_Cons utf8_encode_split_before punctuation)
  with quote_body_length [of s] show ?thesis by simp
qed

lemma join_with_comma_length:
  "sum_list (map (\<lambda>x. length (utf8_encode x)) xs) \<le> length (utf8_encode (join_with 0x2C xs))"
  by (induction "0x2C :: 16 word" xs rule: join_with.induct)
     (simp_all add: utf8_encode_split_before utf8_encode_Cons punctuation)

lemma stringify_JArr_length:
  "sum_list (map (\<lambda>x. length (utf8_encode (stringify x))) xs)
     \<le> length (utf8_encode (stringify (JArr xs)))"
proof -
  have "utf8_encode (stringify (JArr xs))
      = utf8_unit 0x5B @ utf8_encode (join_with 0x2C (map stringify xs)) @ utf8_encode [0x5D]"
    by (simp add: utf8_encode_Cons utf8_encode_split_before punctuation)
  with join_with_comma_length [of "map stringify xs"] show ?thesis
    by (simp add: comp_def)
qed

lemma stringify_JObj_length:
  "sum_list (map (\<lambda>(k, v). length (utf8_encode (stringify v))) kvs)
     \<le> length (utf8_encode (stringify (JObj kvs)))"
proof -
  let ?member = "\<lambda>(k, v). QuoteJSONString k @ 0x3A # stringify v"
  have "utf8_encode (stringify (JObj kvs))
      = utf8_unit 0x7B @ utf8_encode (join_with 0x2C (map ?member kvs)) @ utf8_encode [0x7D]"
    by (simp add: utf8_encode_Cons utf8_encode_split_before punctuation)
  moreover have "length (utf8_encode (stringify v)) \<le> length (utf8_encode (?member (k, v)))"
    for k v
    by (simp add: utf8_encode_split_before utf8_encode_Cons punctuation)
  then have "sum_list (map (\<lambda>(k, v). length (utf8_encode (stringify v))) kvs)
      \<le> sum_list (map (\<lambda>x. length (utf8_encode x)) (map ?member kvs))"
    unfolding map_map comp_def by (intro sum_list_mono) auto
  ultimately show ?thesis
    using join_with_comma_length [of "map ?member kvs"] by simp
qed

lemma sum_list_one_member:
  "map_of kvs k = Some v \<Longrightarrow> f v \<le> sum_list (map (\<lambda>(k, v). f v) kvs)" for f :: "'b \<Rightarrow> nat"
  by (induction kvs) (auto split: if_splits)

lemma sum_list_two_members:
  "map_of kvs k = Some v \<Longrightarrow> map_of kvs k' = Some v' \<Longrightarrow> k \<noteq> k'
   \<Longrightarrow> f v + f v' \<le> sum_list (map (\<lambda>(k, v). f v) kvs)" for f :: "'b \<Rightarrow> nat"
proof (induction kvs)
  case Nil
  then show ?case by simp
next
  case (Cons p kvs)
  obtain a b where p: "p = (a, b)" by (cases p)
  consider "a = k" | "a = k'" | "a \<noteq> k" "a \<noteq> k'" by blast
  then show ?case
  proof cases
    case 1
    with Cons.prems p have "b = v" "map_of kvs k' = Some v'" by auto
    with sum_list_one_member [of kvs k' v' f] show ?thesis by (simp add: p)
  next
    case 2
    with Cons.prems p have "b = v'" "map_of kvs k = Some v" by auto
    with sum_list_one_member [of kvs k v f] show ?thesis by (simp add: p)
  next
    case 3
    with Cons p show ?thesis by simp
  qed
qed

lemma text_within_json:
  "rich_document d
   \<Longrightarrow> length (utf8_encode (concat (map value_text (preorder d))))
       \<le> length (utf8_encode (stringify d))"
proof (induction d rule: measure_induct_rule [where f = size])
  case (less d)
  from less.prems obtain kvs where d: "d = JObj kvs" by (cases d) auto
  let ?T = "\<lambda>j. length (utf8_encode (stringify j))"
  let ?text = "\<lambda>c. concat (map value_text (preorder c))"
  have split_text: "?text d = value_text d @ concat (map ?text (children d))"
    by (subst preorder.simps) (simp add: concat_map_concat_map)
  have kids: "length (utf8_encode (concat (map ?text (children d))))
      \<le> sum_list (map ?T (children d))"
  proof -
    have "length (utf8_encode (concat (map ?text (children d))))
        \<le> sum_list (map (\<lambda>x. length (utf8_encode x)) (map ?text (children d)))"
      by (rule utf8_length_concat_le)
    also have "\<dots> \<le> sum_list (map ?T (children d))"
      unfolding map_map comp_def
    proof (intro sum_list_mono)
      fix c assume c: "c \<in> set (children d)"
      with less.prems have "rich_document c"
        by (auto simp: d children_def split: option.splits json.splits)
      with size_children [OF c] show "length (utf8_encode (?text c)) \<le> ?T c"
        by (rule less.IH)
    qed
    finally show ?thesis .
  qed
  have whole: "length (utf8_encode (value_text d)) + sum_list (map ?T (children d)) \<le> ?T d"
  proof -
    have members: "sum_list (map (\<lambda>(k, v). ?T v) kvs) \<le> ?T d"
      unfolding d by (rule stringify_JObj_length)
    show ?thesis
    proof (cases "map_of kvs (js ''value'')")
      case no_value: None
      show ?thesis
      proof (cases "map_of kvs (js ''content'')")
        case None
        with no_value show ?thesis by (simp add: d value_text_def children_def)
      next
        case (Some c)
        with less.prems obtain cs where cs: "c = JArr cs" by (auto simp: d split: json.splits)
        from sum_list_one_member [OF Some, of ?T] stringify_JArr_length [of cs] members
        show ?thesis using no_value Some
          by (simp add: d value_text_def children_def cs)
      qed
    next
      case has_value: (Some v)
      with less.prems obtain s where s: "v = JStr s" by (auto simp: d split: json.splits)
      have own: "length (utf8_encode s) \<le> ?T v"
        by (simp add: s QuoteJSONString_length)
      show ?thesis
      proof (cases "map_of kvs (js ''content'')")
        case None
        from sum_list_one_member [OF has_value, of ?T] own members
        show ?thesis using has_value None
          by (simp add: d value_text_def children_def s)
      next
        case (Some c)
        with less.prems obtain cs where cs: "c = JArr cs" by (auto simp: d split: json.splits)
        have "js ''value'' \<noteq> js ''content''" by simp
        from sum_list_two_members [OF has_value Some this, of ?T] own
          stringify_JArr_length [of cs] members
        show ?thesis using has_value Some
          by (simp add: d value_text_def children_def s cs)
      qed
    qed
  qed
  have "length (utf8_encode (?text d))
      \<le> length (utf8_encode (value_text d)) + length (utf8_encode (concat (map ?text (children d))))"
    unfolding split_text by (rule utf8_length_append_le)
  with kids whole show ?case by linarith
qed

lemma overhead_negative_outside_rich_documents:
  "analyzeContentOverhead (Data (JObj [(js ''value'', JObj [])]))
     = Inr \<lparr>totalSize = 12, contentSize = 15, overheadSize = - 3,
            overheadPercentage = Percent_of (- 3) 12\<rparr>"
  by (simp add: analyzeContentOverhead_def extractPlainTextFromRichText_def obj_get_value
        obj_get_content Let_def;
      simp add: js_def byteLength_def QuoteJSONString_def json_escape_def length_utf8_unit
        is_high_def is_low_def)

section \<open>Claims\<close>

text \<open>
  C1 (as amended). With the limit at 2,097,152 bytes, an entry of 1,800,000 bytes gets the
  warning message, as one of 1,900,000 bytes does, and one of 1,000,000 bytes the safe
  message. The bands are: strictly above 80% of the limit, warning; strictly above 60% and
  at most 80%, caution; at most 60%, safe.
\<close>

theorem usage_bands:
  "twoMBInBytes = 2097152
   \<and> usage_band 1800000 = WARNING \<and> usage_band 1900000 = WARNING \<and> usage_band 1000000 = SAFE
   \<and> (usage_band n = WARNING \<longleftrightarrow> 10 * n > 8 * twoMBInBytes)
   \<and> (usage_band n = CAUTION \<longleftrightarrow> 10 * n > 6 * twoMBInBytes \<and> 10 * n \<le> 8 * twoMBInBytes)
   \<and> (usage_band n = SAFE \<longleftrightarrow> 10 * n \<le> 6 * twoMBInBytes)"
  unfolding usage_band_exact by (simp add: twoMBInBytes_def)

text \<open>
  C1 as stated puts 1,800,000 bytes, which is 85.8% of the limit, in the caution band.
\<close>

theorem caution_example_counterexample: "usage_band 1800000 \<noteq> CAUTION"
  unfolding usage_band_exact by (simp add: twoMBInBytes_def)

text \<open>
  C2. The overhead analysis of a falsy value (absent, null, empty string) has all four fields
  zero; of a string, \<open>contentSize = totalSize\<close> (the UTF-8 length) and \<open>overheadSize = 0\<close>;
  of a rich document it returns a result, and every result it returns satisfies
  \<open>totalSize = contentSize + overheadSize\<close>.
\<close>

theorem overhead_result_invariants:
  "(\<not> truthy v \<longrightarrow>
      analyzeContentOverhead v =
        Inr \<lparr>totalSize = 0, contentSize = 0, overheadSize = 0, overheadPercentage = Percent_0\<rparr>)
   \<and> (\<exists>r. analyzeContentOverhead (Data (JStr s)) = Inr r \<and> contentSize r = totalSize r
          \<and> totalSize r = byteLength s \<and> overheadSize r = 0)
   \<and> (rich_document d \<longrightarrow>
        (\<exists>r. analyzeContentOverhead (Data d) = Inr r
           \<and> totalSize r = contentSize r + overheadSize r))
   \<and> (analyzeContentOverhead v = Inr r \<longrightarrow> totalSize r = contentSize r + overheadSize r)"
proof -
  have falsy: "analyzeContentOverhead v =
      Inr \<lparr>totalSize = 0, contentSize = 0, overheadSize = 0, overheadPercentage = Percent_0\<rparr>"
    if "\<not> truthy v"
    using that by (simp add: analyzeContentOverhead_def)
  have str: "\<exists>r. analyzeContentOverhead (Data (JStr s)) = Inr r \<and> contentSize r = totalSize r
      \<and> totalSize r = byteLength s \<and> overheadSize r = 0"
    by (cases "s = []") (simp_all add: analyzeContentOverhead_def byteLength_def Let_def)
  have rich: "\<exists>r. analyzeContentOverhead (Data d) = Inr r
      \<and> totalSize r = contentSize r + overheadSize r"
    if "rich_document d"
  proof -
    from that obtain kvs where d: "d = JObj kvs" by (cases d) auto
    from traverse_rich_document [OF that, of "[]"] show ?thesis
      by (simp add: d analyzeContentOverhead_def extractPlainTextFromRichText_def Let_def)
  qed
  have sum: "totalSize r = contentSize r + overheadSize r"
    if "analyzeContentOverhead v = Inr r"
    using that
    by (auto simp: analyzeContentOverhead_def Let_def
             split: if_splits jsval.splits json.splits sum.splits)
  from falsy str rich sum show ?thesis by blast
qed

theorem overhead_result_invariants_witness:
  "\<not> truthy (Data JNull)
   \<and> analyzeContentOverhead (Data JNull) =
       Inr \<lparr>totalSize = 0, contentSize = 0, overheadSize = 0, overheadPercentage = Percent_0\<rparr>
   \<and> (\<exists>r. analyzeContentOverhead (Data (JStr (js ''abc''))) = Inr r
          \<and> contentSize r = totalSize r \<and> totalSize r = 3 \<and> overheadSize r = 0)
   \<and> rich_document (JObj [(js ''value'', JStr (js ''a''))])
   \<and> analyzeContentOverhead (Data (JObj [(js ''value'', JStr (js ''a''))])) =
       Inr \<lparr>totalSize = 13, contentSize = 1, overheadSize = 12,
             overheadPercentage = Percent_of 12 13\<rparr>
   \<and> (13 :: int) = 1 + 12"
  using overhead_result_invariants [of "Data JNull" "js ''abc''"
      "JObj [(js ''value'', JStr (js ''a''))]"
      "\<lparr>totalSize = 13, contentSize = 1, overheadSize = 12,
         overheadPercentage = Percent_of 12 13\<rparr>"]
  by (simp add: analyzeContentOverhead_def extractPlainTextFromRichText_def obj_get_value
        obj_get_content;
      simp add: js_def byteLength_def QuoteJSONString_def json_escape_def
        length_utf8_unit is_high_def is_low_def)

text \<open>
  C3. For every rich document (each node an object whose \<open>value\<close>, if present, is a string
  and whose \<open>content\<close>, if present, is an array of rich documents), the extracted text is the
  concatenation of the \<open>value\<close> strings of the nodes in depth-first pre-order. The document
  \<open>{content: [{value: "a"}, {content: [{value: "b"}]}]}\<close> yields \<open>"ab"\<close>, and an object with no
  \<open>value\<close> and no \<open>content\<close> yields the empty string.
\<close>

theorem extract_is_preorder_concat:
  "(rich_document d \<longrightarrow>
      extractPlainTextFromRichText (Data d) = Inr (concat (map value_text (preorder d))))
   \<and> extractPlainTextFromRichText
        (Data (JObj [(js ''content'',
           JArr [JObj [(js ''value'', JStr (js ''a''))],
                 JObj [(js ''content'', JArr [JObj [(js ''value'', JStr (js ''b''))]])]])]))
      = Inr (js ''ab'')
   \<and> (map_of kvs (js ''value'') = None \<and> map_of kvs (js ''content'') = None \<longrightarrow>
        extractPlainTextFromRichText (Data (JObj kvs)) = Inr [])"
proof -
  have general: "extractPlainTextFromRichText (Data d) = Inr (concat (map value_text (preorder d)))"
    if "rich_document d"
  proof -
    from that obtain kvs where d: "d = JObj kvs" by (cases d) auto
    from traverse_rich_document [OF that, of "[]"] show ?thesis
      by (simp add: d extractPlainTextFromRichText_def)
  qed
  have example: "extractPlainTextFromRichText
        (Data (JObj [(js ''content'',
           JArr [JObj [(js ''value'', JStr (js ''a''))],
                 JObj [(js ''content'', JArr [JObj [(js ''value'', JStr (js ''b''))]])]])]))
      = Inr (js ''ab'')"
    by (simp add: extractPlainTextFromRichText_def obj_get_value obj_get_content;
        simp add: js_def)
  have bare: "extractPlainTextFromRichText (Data (JObj kvs)) = Inr []"
    if "map_of kvs (js ''value'') = None \<and> map_of kvs (js ''content'') = None"
    using that by (simp add: extractPlainTextFromRichText_def obj_get_value obj_get_content)
  from general example bare show ?thesis by blast
qed

theorem extract_is_preorder_concat_witness:
  "rich_document (JObj [(js ''content'',
       JArr [JObj [(js ''value'', JStr (js ''a''))],
             JObj [(js ''content'', JArr [JObj [(js ''value'', JStr (js ''b''))]])]])])
   \<and> extractPlainTextFromRichText
        (Data (JObj [(js ''content'',
           JArr [JObj [(js ''value'', JStr (js ''a''))],
                 JObj [(js ''content'', JArr [JObj [(js ''value'', JStr (js ''b''))]])]])]))
      = Inr (concat (map value_text (preorder (JObj [(js ''content'',
           JArr [JObj [(js ''value'', JStr (js ''a''))],
                 JObj [(js ''content'', JArr [JObj [(js ''value'', JStr (js ''b''))]])]])]))))
   \<and> map_of [(js ''nodeType'', JStr (js ''document''))] (js ''value'') = None
   \<and> map_of [(js ''nodeType'', JStr (js ''document''))] (js ''content'') = None
   \<and> extractPlainTextFromRichText (Data (JObj [(js ''nodeType'', JStr (js ''document''))]))
      = Inr []"
proof -
  have rich: "rich_document (JObj [(js ''content'',
       JArr [JObj [(js ''value'', JStr (js ''a''))],
             JObj [(js ''content'', JArr [JObj [(js ''value'', JStr (js ''b''))]])]])])"
    by simp
  have bare: "map_of [(js ''nodeType'', JStr (js ''document''))] (js ''value'') = None
      \<and> map_of [(js ''nodeType'', JStr (js ''document''))] (js ''content'') = None"
    by simp
  from rich bare
    extract_is_preorder_concat [of
      "JObj [(js ''content'',
         JArr [JObj [(js ''value'', JStr (js ''a''))],
               JObj [(js ''content'', JArr [JObj [(js ''value'', JStr (js ''b''))]])]])]"
      "[(js ''nodeType'', JStr (js ''document''))]"]
  show ?thesis by blast
qed

text \<open>
  C4. The extractor is to return a string for every input and never raise. The code raises
  on \<open>{content: [null]}\<close>: \<open>forEach\<close> calls \<open>traverse(null)\<close>, which reads
  \<open>null.value\<close>, a TypeError. (Input that is no object, \<open>content\<close> that is no array and
  children that are strings, numbers, booleans or arrays are tolerated, see
  \<open>extract_of_non_object\<close>, \<open>extract_content_not_array\<close>, \<open>extract_child_not_node\<close>.)
\<close>

theorem extract_raises_on_null_child:
  "extractPlainTextFromRichText (Data (JObj [(js ''content'', JArr [JNull])])) = Inl TypeError"
  by (simp add: extractPlainTextFromRichText_def obj_get_value obj_get_content)

theorem extract_raises_on_null_child_witness:
  "truthy (Data (JObj [(js ''content'', JArr [JNull])]))
   \<and> typeof (Data (JObj [(js ''content'', JArr [JNull])])) = T_object
   \<and> extractPlainTextFromRichText (Data (JObj [(js ''content'', JArr [JNull])])) = Inl TypeError"
  using extract_raises_on_null_child by simp

text \<open>
  C5. \<open>getByteSize\<close> is 0 for an absent, null or empty value (any falsy value), and for a
  string it is the number of bytes of its UTF-8 encoding, while \<open>getCharacterCount\<close> is the
  number of UTF-16 code units. So a string with a code unit outside ASCII (a character of
  more than one byte) has more bytes than characters, and a string of one three-byte
  character has byte size 3 and character count 1.
\<close>

theorem byteSize_vs_characterCount:
  "(\<not> truthy v \<longrightarrow> getByteSize v = 0)
   \<and> getByteSize Undefined = 0 \<and> getByteSize (Data JNull) = 0 \<and> getByteSize (Data (JStr [])) = 0
   \<and> getByteSize (Data (JStr s)) = int (length (utf8_encode s))
   \<and> getCharacterCount (Data (JStr s)) = int (length s)
   \<and> ((\<exists>c \<in> set s. 0x80 \<le> c) \<longrightarrow>
        getCharacterCount (Data (JStr s)) < getByteSize (Data (JStr s)))
   \<and> (0x800 \<le> c \<longrightarrow>
        getByteSize (Data (JStr [c])) = 3 \<and> getCharacterCount (Data (JStr [c])) = 1)"
proof -
  have three: "getByteSize (Data (JStr [c])) = 3" if "0x800 \<le> c"
  proof -
    from that have "\<not> c < 0x800" by (simp add: not_less)
    moreover from that have "\<not> c < 0x80"
      by (simp add: word_le_nat_alt word_less_nat_alt)
    ultimately have "\<not> c < 0x80" "\<not> c < 0x800" by simp_all
    then show ?thesis by (simp add: getByteSize_def byteLength_def length_utf8_unit)
  qed
  have strict: "getCharacterCount (Data (JStr s)) < getByteSize (Data (JStr s))"
    if "\<exists>c \<in> set s. 0x80 \<le> c"
  proof -
    from that have "s \<noteq> []" by auto
    with length_less_utf8_encode [OF that] show ?thesis
      by (simp add: getByteSize_def getCharacterCount_def byteLength_def)
  qed
  show ?thesis
    using three strict
    by (auto simp: getByteSize_def getCharacterCount_def byteLength_def)
qed

theorem byteSize_vs_characterCount_witness:
  "\<not> truthy (Data (JStr [])) \<and> getByteSize (Data (JStr [])) = 0
   \<and> (\<exists>c \<in> set [0x61, 0xE9 :: 16 word]. 0x80 \<le> c)
   \<and> getCharacterCount (Data (JStr [0x61, 0xE9])) = 2
   \<and> getByteSize (Data (JStr [0x61, 0xE9])) = 3
   \<and> (0x800 :: 16 word) \<le> 0x20AC
   \<and> getByteSize (Data (JStr [0x20AC])) = 3 \<and> getCharacterCount (Data (JStr [0x20AC])) = 1"
  using byteSize_vs_characterCount [of "Data (JStr [])" "[0x61, 0xE9]" "0x20AC"]
  by (simp add: length_utf8_unit is_high_def is_low_def)



text \<open>
  C7 (as amended). Whatever the order of the locale list supplied, the locales are processed
  and the results emitted in ascending order of locale code under the collation of
  \<open>localeCompare\<close> (any consistent comparator). The sorted list is a permutation of the
  list supplied, and the sort is stable: locales whose codes compare equal to a code \<open>k\<close>
  stay in the order supplied.
\<close>

theorem locales_in_collation_order:
  assumes "consistent localeCompare"
    and "analyzeLocales contentField (sortedLocales localeCompare locales) = Inr st"
  shows "map localeCode (results st) = map code (sortedLocales localeCompare locales)
     \<and> sorted_wrt (\<lambda>a b. localeCompare a b \<le> 0) (map localeCode (results st))
     \<and> mset (sortedLocales localeCompare locales) = mset locales
     \<and> filter (\<lambda>l. localeCompare (code l) k = 0) (sortedLocales localeCompare locales)
         = filter (\<lambda>l. localeCompare (code l) k = 0) locales"
proof -
  let ?init = "\<lparr>results = [], totalSize_acc = 0, totalCharacters = 0, totalContentSize = 0,
        totalOverheadSize = 0, localesWithContent = 0\<rparr>"
  from assms(2) have "forEach (analyzeLocale contentField) (sortedLocales localeCompare locales)
      ?init = Inr st"
    by (simp add: analyzeLocales_def)
  from forEach_analyzeLocale_codes [OF this]
  have codes: "map localeCode (results st) = map code (sortedLocales localeCompare locales)"
    by simp
  from assms(1) have "consistent (\<lambda>a b. localeCompare (code a) (code b))"
    by (simp add: consistent_def)
  then have "sorted_wrt (\<lambda>a b. localeCompare (code a) (code b) \<le> 0)
      (sortedLocales localeCompare locales)"
    unfolding sortedLocales_def by (rule sorted_Array_sort)
  then have "sorted_wrt (\<lambda>a b. localeCompare a b \<le> 0)
      (map code (sortedLocales localeCompare locales))"
    by (simp add: sorted_wrt_map)
  moreover have "filter (\<lambda>l. localeCompare (code l) k = 0) (sortedLocales localeCompare locales)
      = filter (\<lambda>l. localeCompare (code l) k = 0) locales"
    unfolding sortedLocales_def
    by (rule filter_Array_sort) (rule consistent_ties [OF assms(1)])
  ultimately show ?thesis using codes
    by (simp add: sortedLocales_def mset_Array_sort)
qed

theorem locales_in_collation_order_witness:
  "consistent localeCompare_root
   \<and> analyzeLocales [] (sortedLocales localeCompare_root
        [\<lparr>code = js ''zh-HK'', name = js ''Chinese (Hong Kong)''\<rparr>,
         \<lparr>code = js ''zh-Hans'', name = js ''Chinese (Simplified)''\<rparr>])
     = Inr \<lparr>results =
        [\<lparr>localeCode = js ''zh-Hans'', localeName = js ''Chinese (Simplified)'',
            sizeInBytes = 0, characterCount = 0,
            overheadAnalysis = \<lparr>totalSize = 0, contentSize = 0, overheadSize = 0,
                 overheadPercentage = Percent_0\<rparr>,
            hasContent = False\<rparr>,
         \<lparr>localeCode = js ''zh-HK'', localeName = js ''Chinese (Hong Kong)'',
            sizeInBytes = 0, characterCount = 0,
            overheadAnalysis = \<lparr>totalSize = 0, contentSize = 0, overheadSize = 0,
                 overheadPercentage = Percent_0\<rparr>,
            hasContent = False\<rparr>],
        totalSize_acc = 0, totalCharacters = 0, totalContentSize = 0,
        totalOverheadSize = 0, localesWithContent = 0\<rparr>
   \<and> sorted_wrt (\<lambda>a b. localeCompare_root a b \<le> 0)
        (map localeCode (results \<lparr>results =
        [\<lparr>localeCode = js ''zh-Hans'', localeName = js ''Chinese (Simplified)'',
            sizeInBytes = 0, characterCount = 0,
            overheadAnalysis = \<lparr>totalSize = 0, contentSize = 0, overheadSize = 0,
                 overheadPercentage = Percent_0\<rparr>,
            hasContent = False\<rparr>,
         \<lparr>localeCode = js ''zh-HK'', localeName = js ''Chinese (Hong Kong)'',
            sizeInBytes = 0, characterCount = 0,
            overheadAnalysis = \<lparr>totalSize = 0, contentSize = 0, overheadSize = 0,
                 overheadPercentage = Percent_0\<rparr>,
            hasContent = False\<rparr>],
        totalSize_acc = 0, totalCharacters = 0, totalContentSize = 0,
        totalOverheadSize = 0, localesWithContent = 0\<rparr>))"
proof -
  have c: "consistent localeCompare_root"
    using consistent_localeCompare_root [of "\<lambda>x. x"] by simp
  have run: "analyzeLocales [] (sortedLocales localeCompare_root
        [\<lparr>code = js ''zh-HK'', name = js ''Chinese (Hong Kong)''\<rparr>,
         \<lparr>code = js ''zh-Hans'', name = js ''Chinese (Simplified)''\<rparr>])
     = Inr \<lparr>results =
        [\<lparr>localeCode = js ''zh-Hans'', localeName = js ''Chinese (Simplified)'',
            sizeInBytes = 0, characterCount = 0,
            overheadAnalysis = \<lparr>totalSize = 0, contentSize = 0, overheadSize = 0,
                 overheadPercentage = Percent_0\<rparr>,
            hasContent = False\<rparr>,
         \<lparr>localeCode = js ''zh-HK'', localeName = js ''Chinese (Hong Kong)'',
            sizeInBytes = 0, characterCount = 0,
            overheadAnalysis = \<lparr>totalSize = 0, contentSize = 0, overheadSize = 0,
                 overheadPercentage = Percent_0\<rparr>,
            hasContent = False\<rparr>],
        totalSize_acc = 0, totalCharacters = 0, totalContentSize = 0,
        totalOverheadSize = 0, localesWithContent = 0\<rparr>"
    by (simp add: analyzeLocales_def analyzeLocale_def sortedLocales_def Array_sort_def
          localeCompare_root_def collation_key_def
          obj_get_def Object_prototype_methods_def
          analyzeContentOverhead_def getByteSize_def getCharacterCount_def Let_def;
        simp add: js_def primary_weight_def)
  from locales_in_collation_order [OF c run] c run show ?thesis by blast
qed

text \<open>
  C7 as stated orders the codes by code units, which puts \<open>zh-HK\<close> before \<open>zh-Hans\<close>; the
  collation puts \<open>zh-Hans\<close> first.
\<close>

theorem code_unit_order_counterexample:
  "map code (sortedLocales localeCompare_root
        [\<lparr>code = js ''zh-HK'', name = js ''Chinese (Hong Kong)''\<rparr>,
         \<lparr>code = js ''zh-Hans'', name = js ''Chinese (Simplified)''\<rparr>])
     = [js ''zh-Hans'', js ''zh-HK'']
   \<and> \<not> sorted_wrt code_unit_le [js ''zh-Hans'', js ''zh-HK'']"
  by (simp add: sortedLocales_def Array_sort_def localeCompare_root_def collation_key_def;
      simp add: js_def primary_weight_def)

text \<open>
  C8. For every rich document the overhead analysis returns a result whose \<open>overheadSize\<close>,
  the byte length of the JSON text minus the byte length of the extracted text, is not
  negative.
\<close>

theorem overhead_never_negative:
  "rich_document d \<longrightarrow>
     (\<exists>r. analyzeContentOverhead (Data d) = Inr r
        \<and> overheadSize r = byteLength (stringify d)
             - byteLength (concat (map value_text (preorder d)))
        \<and> 0 \<le> overheadSize r)"
proof
  assume rich: "rich_document d"
  then obtain kvs where d: "d = JObj kvs" by (cases d) auto
  from traverse_rich_document [OF rich, of "[]"]
  have "extractPlainTextFromRichText (Data d) = Inr (concat (map value_text (preorder d)))"
    by (simp add: d extractPlainTextFromRichText_def)
  with text_within_json [OF rich]
  show "\<exists>r. analyzeContentOverhead (Data d) = Inr r
        \<and> overheadSize r = byteLength (stringify d)
             - byteLength (concat (map value_text (preorder d)))
        \<and> 0 \<le> overheadSize r"
    by (simp add: d analyzeContentOverhead_def Let_def byteLength_def)
qed

theorem overhead_never_negative_witness:
  "rich_document (JObj [(js ''nodeType'', JStr (js ''text'')), (js ''value'', JStr (js ''a''))])
   \<and> (\<exists>r. analyzeContentOverhead
          (Data (JObj [(js ''nodeType'', JStr (js ''text'')), (js ''value'', JStr (js ''a''))]))
          = Inr r
        \<and> overheadSize r
            = byteLength
                (stringify (JObj [(js ''nodeType'', JStr (js ''text'')),
                                  (js ''value'', JStr (js ''a''))]))
              - byteLength (concat (map value_text
                  (preorder (JObj [(js ''nodeType'', JStr (js ''text'')),
                                   (js ''value'', JStr (js ''a''))]))))
        \<and> 0 \<le> overheadSize r)"
proof -
  have "rich_document
      (JObj [(js ''nodeType'', JStr (js ''text'')), (js ''value'', JStr (js ''a''))])"
    by simp
  from this overhead_never_negative
    [of "JObj [(js ''nodeType'', JStr (js ''text'')), (js ''value'', JStr (js ''a''))]"]
  show ?thesis by blast
qed

text \<open>
  C9 (as amended). The breakdown lists every field id of the entry with the byte length of
  the JSON text of that field, sorted by size, largest first; fields of equal size stay in
  the order in which the entry lists them.
\<close>

theorem fields_by_size_stable:
  assumes "distinct (map fst entry_fields)"
  shows "mset (sortedFields entry_fields)
           = mset (map (\<lambda>(fieldId, field). (fieldId, byteLength (stringify field))) entry_fields)
       \<and> sorted_wrt (\<lambda>(_, a) (_, b). a \<ge> b) (sortedFields entry_fields)
       \<and> filter (\<lambda>(_, size). size = n) (sortedFields entry_fields)
           = filter (\<lambda>(_, size). size = n)
               (map (\<lambda>(fieldId, field). (fieldId, byteLength (stringify field))) entry_fields)"
proof -
  have "sorted_wrt (\<lambda>p q. (case p of (_, a) \<Rightarrow> \<lambda>(_, b). b - a) q \<le> 0) (sortedFields entry_fields)"
    unfolding sortedFields_def by (rule sorted_Array_sort [OF consistent_by_size])
  then have "sorted_wrt (\<lambda>(_, a) (_, b). a \<ge> b) (sortedFields entry_fields)"
    by (rule sorted_wrt_mono_rel [rotated]) auto
  moreover have "filter (\<lambda>(_, size). size = n) (sortedFields entry_fields)
      = filter (\<lambda>(_, size). size = n) (fieldSizes entry_fields)"
    unfolding sortedFields_def by (rule filter_Array_sort) auto
  ultimately show ?thesis
    by (simp add: sortedFields_def mset_Array_sort fieldSizes_distinct [OF assms])
qed

theorem fields_by_size_stable_witness:
  "distinct (map fst [(js ''title'', JObj [(js ''en-US'', JStr (js ''ab''))]),
                      (js ''slug'', JObj [(js ''en-US'', JStr (js ''cd''))]),
                      (js ''body'', JObj [(js ''en-US'', JStr (js ''hello''))])])
   \<and> sorted_wrt (\<lambda>(_, a) (_, b). a \<ge> b)
        (sortedFields [(js ''title'', JObj [(js ''en-US'', JStr (js ''ab''))]),
                       (js ''slug'', JObj [(js ''en-US'', JStr (js ''cd''))]),
                       (js ''body'', JObj [(js ''en-US'', JStr (js ''hello''))])])"
proof -
  have "distinct (map fst [(js ''title'', JObj [(js ''en-US'', JStr (js ''ab''))]),
                      (js ''slug'', JObj [(js ''en-US'', JStr (js ''cd''))]),
                      (js ''body'', JObj [(js ''en-US'', JStr (js ''hello''))])])"
    by simp
  from this fields_by_size_stable [OF this] show ?thesis by blast
qed

text \<open>
  C9 as stated breaks ties by ascending field id: \<open>title\<close> and \<open>slug\<close>, both of 14 bytes,
  stay in the entry's order.
\<close>

theorem ties_by_field_id_counterexample:
  "sortedFields [(js ''title'', JObj [(js ''en-US'', JStr (js ''ab''))]),
                 (js ''slug'', JObj [(js ''en-US'', JStr (js ''cd''))])]
     = [(js ''title'', 14), (js ''slug'', 14)]
   \<and> \<not> code_unit_le (js ''title'') (js ''slug'')"
  by (simp add: sortedFields_def fieldSizes_def Array_sort_def;
      simp add: js_def byteLength_def QuoteJSONString_def json_escape_def length_utf8_unit
        is_high_def is_low_def)

text \<open>
  C10. A field id that is not in the entry's field map is to be signalled as an error. A
  field id that names a method every object inherits passes the guard instead: with
  \<open>CONTENTFUL_CONTENT_FIELD_ID=constructor\<close> the value read is a function, which is truthy,
  and no error is signalled. (An absent field id that names no inherited property is
  signalled, see \<open>missing_field_signalled\<close>.)
\<close>

theorem inherited_name_passes_guard:
  "map_of [(js ''title'', JObj [(js ''en-US'', JStr (js ''ab''))])] (js ''constructor'') = None
   \<and> contentField_of [(js ''title'', JObj [(js ''en-US'', JStr (js ''ab''))])]
         (contentFieldId (Some (js ''constructor'')))
       = Inr Function"
  by (simp add: contentField_of_def contentFieldId_def obj_get_def Object_prototype_methods_def)

theorem inherited_name_passes_guard_witness:
  "truthy Function
   \<and> contentField_of [(js ''title'', JObj [(js ''en-US'', JStr (js ''ab''))])]
         (contentFieldId (Some (js ''constructor'')))
       = Inr Function"
  using inherited_name_passes_guard by simp

end
